theory Spec2Isabelle
  imports Main "HOL-Library.Char_ord" "HOL-Library.List_Lexorder"
begin

section \<open>Terms and clauses (Task7.py, classes Term and Clause)\<close>

text \<open>
  A \<open>Term\<close> object has a name and a list of arguments. The source builds argument lists
  from raw strings (\<open>add_fact\<close>, \<open>add_rule\<close>, \<open>query\<close>) and from \<open>Term\<close> objects
  (\<open>substitute\<close> puts bound values, which are \<open>Term\<close>s, into argument lists), and asks
  \<open>isinstance(arg, Term)\<close> wherever it walks them. An argument is therefore either a raw
  string or a term. Names are ASCII strings, one \<open>char\<close> per character; a name that is
  not a string (never a variable, by \<open>isinstance(name, str)\<close>) is outside this model.
\<close>

datatype pterm = Term (name: string) (args: "arg list")
  and arg = Raw string | Sub pterm

text \<open>
  \<open>str.isupper()\<close>: true when the string has at least one cased character and none of its
  cased characters is lower case. The scan keeps the flag \<open>cased\<close> as the library routine does.
  The cased characters here are the ASCII letters: the definition is \<open>str.isupper\<close> on
  ASCII names. For other characters Python consults the Unicode case tables, which are not
  part of this model; a statement about the case table itself is made for ASCII names only.
\<close>

definition is_upper_char :: "char \<Rightarrow> bool" where
  "is_upper_char c = (CHR ''A'' \<le> c \<and> c \<le> CHR ''Z'')"

definition is_lower_char :: "char \<Rightarrow> bool" where
  "is_lower_char c = (CHR ''a'' \<le> c \<and> c \<le> CHR ''z'')"

fun isupper_scan :: "bool \<Rightarrow> string \<Rightarrow> bool" where
  "isupper_scan cased [] = cased"
| "isupper_scan cased (c # cs) =
     (if is_lower_char c then False else isupper_scan (cased \<or> is_upper_char c) cs)"

definition isupper :: "string \<Rightarrow> bool" where
  "isupper s = isupper_scan False s"

text \<open>
  \<open>Term.__init__\<close> stores \<open>is_variable = name.isupper()\<close>; neither \<open>name\<close> nor
  \<open>is_variable\<close> is assigned anywhere else, so the field is this function of the term.
\<close>

fun is_variable :: "pterm \<Rightarrow> bool" where
  "is_variable (Term nm as) = isupper nm"

text \<open>\<open>Term.__str__\<close> and \<open>Clause.__str__\<close>; \<open>join sep\<close> is \<open>sep.join\<close>.\<close>

fun join :: "string \<Rightarrow> string list \<Rightarrow> string" where
  "join sep [] = []"
| "join sep [x] = x"
| "join sep (x # y # ys) = x @ sep @ join sep (y # ys)"

fun str_term :: "pterm \<Rightarrow> string"
  and str_args :: "arg list \<Rightarrow> string list"
  and str_arg :: "arg \<Rightarrow> string" where
  "str_term (Term nm as) =
     (if as \<noteq> [] then nm @ ''('' @ join '', '' (str_args as) @ '')'' else nm)"
| "str_args [] = []"
| "str_args (a # as) = str_arg a # str_args as"
| "str_arg (Raw x) = x"
| "str_arg (Sub t) = str_term t"

record clause =
  head :: pterm
  body :: "pterm list"

definition is_fact :: "clause \<Rightarrow> bool" where
  "is_fact c = (length (body c) = 0)"

definition str_clause :: "clause \<Rightarrow> string" where
  "str_clause c =
     (if is_fact c then str_term (head c)
      else str_term (head c) @ '' :- '' @ join '', '' (map str_term (body c)))"

section \<open>Knowledge base (class KnowledgeBase)\<close>

record knowledge_base =
  clauses :: "clause list"
  facts :: "pterm set"

definition empty_kb :: knowledge_base where
  "empty_kb = \<lparr>clauses = [], facts = {}\<rparr>"

text \<open>
  \<open>any(arg for arg in args if isinstance(arg, str) and arg.isupper())\<close>: the generator
  yields the raw arguments that are upper case, each a non-empty string and so true.
\<close>

fun is_raw_variable :: "arg \<Rightarrow> bool" where
  "is_raw_variable (Raw x) = isupper x"
| "is_raw_variable (Sub t) = False"

definition add_fact :: "knowledge_base \<Rightarrow> string \<Rightarrow> arg list \<Rightarrow> knowledge_base" where
  "add_fact k predicate as =
     (let term = Term predicate as;
          k1 = k\<lparr>clauses := clauses k @ [\<lparr>head = term, body = []\<rparr>]\<rparr>
      in if \<not> list_ex is_raw_variable as then k1\<lparr>facts := insert term (facts k1)\<rparr> else k1)"

definition add_rule ::
  "knowledge_base \<Rightarrow> string \<Rightarrow> arg list \<Rightarrow> (string \<times> arg list) list \<Rightarrow> knowledge_base" where
  "add_rule k head_pred head_args body_conditions =
     k\<lparr>clauses := clauses k @
        [\<lparr>head = Term head_pred head_args,
          body = map (\<lambda>(pred, as). Term pred as) body_conditions\<rparr>]\<rparr>"

definition get_matching_clauses :: "knowledge_base \<Rightarrow> pterm \<Rightarrow> clause list" where
  "get_matching_clauses k goal =
     filter (\<lambda>c. name (head c) = name goal \<and> length (args (head c)) = length (args goal))
       (clauses k)"

section \<open>Unification (class Unification)\<close>

text \<open>
  A substitution is a Python dict from variable names to terms: an association list in
  insertion order. \<open>name in substitution\<close> and \<open>substitution[name]\<close> are \<open>map_of\<close>;
  \<open>substitution[name] = t\<close> is \<open>dict_set\<close>, which replaces in place or appends.
\<close>

type_synonym subst = "(string \<times> pterm) list"

fun dict_set :: "string \<Rightarrow> pterm \<Rightarrow> subst \<Rightarrow> subst" where
  "dict_set k v [] = [(k, v)]"
| "dict_set k v (p # ps) = (if fst p = k then (k, v) # ps else p # dict_set k v ps)"

fun substitute :: "pterm \<Rightarrow> subst \<Rightarrow> pterm"
  and substitute_args :: "arg list \<Rightarrow> subst \<Rightarrow> arg list"
  and substitute_arg :: "arg \<Rightarrow> subst \<Rightarrow> arg" where
  "substitute (Term nm as) s =
     (case (if isupper nm then map_of s nm else None) of
        Some b \<Rightarrow> b
      | None \<Rightarrow> if as \<noteq> [] then Term nm (substitute_args as s) else Term nm as)"
| "substitute_args [] s = []"
| "substitute_args (a # as) s = substitute_arg a s # substitute_args as s"
| "substitute_arg (Sub t) s = Sub (substitute t s)"
| "substitute_arg (Raw x) s =
     (case (if isupper x then map_of s x else None) of
        Some b \<Rightarrow> Sub b
      | None \<Rightarrow> Raw x)"

text \<open>
  The errors a call can end in: the interpreter's recursion limit (the fuel of the
  functions below is the number of nested calls still allowed) and \<open>pop\<close> from an empty list.
\<close>

datatype error = RecursionError | IndexError

text \<open>
  \<open>unify\<close> writes into the dict it is given and returns that same dict, or \<open>None\<close>.
  \<open>Unified s\<close>: the dict, now holding \<open>s\<close>, is returned. \<open>Failed s\<close>: \<open>None\<close> is
  returned and the dict that was passed in now holds \<open>s\<close>.
\<close>

datatype unify_outcome = Unified subst | Failed subst

text \<open>\<open>Term(arg) if not isinstance(arg, Term) else arg\<close>\<close>

fun arg_term :: "arg \<Rightarrow> pterm" where
  "arg_term (Raw x) = Term x []"
| "arg_term (Sub t) = t"

fun unify :: "nat \<Rightarrow> pterm \<Rightarrow> pterm \<Rightarrow> subst \<Rightarrow> error + unify_outcome"
  and unify_args :: "nat \<Rightarrow> (arg \<times> arg) list \<Rightarrow> subst \<Rightarrow> error + unify_outcome" where
  "unify 0 t1 t2 s = Inl RecursionError"
| "unify (Suc n) t1 t2 s =
     (let term1 = substitute t1 s; term2 = substitute t2 s in
      if term1 = term2 then Inr (Unified s)
      else if is_variable term1 then
        (case map_of s (name term1) of
           Some b \<Rightarrow> unify n b term2 s
         | None \<Rightarrow> Inr (Unified (dict_set (name term1) term2 s)))
      else if is_variable term2 then
        (case map_of s (name term2) of
           Some b \<Rightarrow> unify n term1 b s
         | None \<Rightarrow> Inr (Unified (dict_set (name term2) term1 s)))
      else if name term1 = name term2 \<and> length (args term1) = length (args term2) then
        unify_args n (zip (args term1) (args term2)) s
      else Inr (Failed s))"
| "unify_args n [] s = Inr (Unified s)"
| "unify_args n (p # ps) s =
     (case unify n (arg_term (fst p)) (arg_term (snd p)) s of
        Inl e \<Rightarrow> Inl e
      | Inr (Failed s') \<Rightarrow> Inr (Failed s')
      | Inr (Unified s') \<Rightarrow> unify_args n ps s')"

section \<open>Backward chaining (class BackwardsChainingEngine)\<close>

record engine =
  kb :: knowledge_base
  trace :: "string list"
  call_stack :: "(pterm \<times> (string \<times> pterm) list) list"

definition new_engine :: "knowledge_base \<Rightarrow> engine" where
  "new_engine k = \<lparr>kb = k, trace = [], call_stack = []\<rparr>"

text \<open>\<open>str(depth)\<close> for the depth counter, a natural number counted up from 0 by \<open>query\<close>.\<close>

definition digit_char :: "nat \<Rightarrow> char" where
  "digit_char d = ''0123456789'' ! d"

fun str_nat :: "nat \<Rightarrow> string" where
  "str_nat n = (if n < 10 then [digit_char n] else str_nat (n div 10) @ [digit_char (n mod 10)])"

text \<open>
  \<open>_rename_variables\<close>. The local dict \<open>var_mapping\<close> is only ever given the entry
  \<open>name \<mapsto> name_suffix\<close> for a name it is asked for, so each lookup yields that string.
  A variable term loses its arguments: \<open>Term(var_mapping[term.name])\<close>. A raw variable
  argument stays a raw string.
\<close>

definition fresh_name :: "string \<Rightarrow> nat \<Rightarrow> string" where
  "fresh_name x suffix = x @ ''_'' @ str_nat suffix"

fun rename_term :: "nat \<Rightarrow> pterm \<Rightarrow> pterm"
  and rename_args :: "nat \<Rightarrow> arg list \<Rightarrow> arg list"
  and rename_arg :: "nat \<Rightarrow> arg \<Rightarrow> arg" where
  "rename_term suffix (Term nm as) =
     (if isupper nm then Term (fresh_name nm suffix) []
      else if as \<noteq> [] then Term nm (rename_args suffix as)
      else Term nm as)"
| "rename_args suffix [] = []"
| "rename_args suffix (a # as) = rename_arg suffix a # rename_args suffix as"
| "rename_arg suffix (Sub t) = Sub (rename_term suffix t)"
| "rename_arg suffix (Raw x) = (if isupper x then Raw (fresh_name x suffix) else Raw x)"

definition rename_variables :: "clause \<Rightarrow> nat \<Rightarrow> clause" where
  "rename_variables c suffix =
     \<lparr>head = rename_term suffix (head c), body = map (rename_term suffix) (body c)\<rparr>"

text \<open>
  \<open>tuple(sorted(substitution.items()))\<close>: the keys of a dict are distinct, so the items are
  ordered by key alone.
\<close>

definition snapshot :: "subst \<Rightarrow> (string \<times> pterm) list" where
  "snapshot s = sort_key fst s"

text \<open>The trace marks, as UTF-8: U+2717 (ballot x) and U+2713 (check mark).\<close>

definition cross :: string where
  "cross = [CHR 0xE2, CHR 0x9C, CHR 0x97]"

definition tick :: string where
  "tick = [CHR 0xE2, CHR 0x9C, CHR 0x93]"

definition indent_of :: "nat \<Rightarrow> string" where
  "indent_of depth = concat (replicate depth ''  '')"

definition log :: "string \<Rightarrow> engine \<Rightarrow> engine" where
  "log line e = e\<lparr>trace := trace e @ [line]\<rparr>"

text \<open>
  \<open>prove\<close> and \<open>_prove_body\<close>, with their \<open>for\<close> loops as \<open>prove_clauses\<close> (over the
  matching clauses, \<open>solutions\<close> as accumulator) and \<open>prove_remaining\<close> (over
  \<open>first_solutions\<close>). The engine's fields \<open>trace\<close> and \<open>call_stack\<close> are threaded
  through; \<open>substitution.copy()\<close> is the value itself. The first argument is the number
  of nested calls still allowed: a call made with none left ends in \<open>RecursionError\<close>, a
  loop passes its own count on to the calls it makes. \<open>list.pop()\<close> raises \<open>IndexError\<close>
  on an empty list.
\<close>

function (sequential) prove :: "nat \<Rightarrow> pterm \<Rightarrow> subst \<Rightarrow> nat \<Rightarrow> engine \<Rightarrow> error + (subst list \<times> engine)"
  and prove_clauses ::
    "nat \<Rightarrow> pterm \<Rightarrow> subst \<Rightarrow> nat \<Rightarrow> clause list \<Rightarrow> subst list \<Rightarrow> engine
      \<Rightarrow> error + (subst list \<times> engine)"
  and prove_body ::
    "nat \<Rightarrow> pterm list \<Rightarrow> subst \<Rightarrow> nat \<Rightarrow> engine \<Rightarrow> error + (subst list \<times> engine)"
  and prove_remaining ::
    "nat \<Rightarrow> pterm list \<Rightarrow> nat \<Rightarrow> subst list \<Rightarrow> subst list \<Rightarrow> engine
      \<Rightarrow> error + (subst list \<times> engine)" where
  "prove 0 goal s depth e = Inl RecursionError"
| "prove (Suc n) goal s depth e =
     (let indent = indent_of depth;
          goal_str = str_term (substitute goal s);
          e1 = log (indent @ ''Trying to prove: '' @ goal_str) e
      in if (goal, snapshot s) \<in> set (call_stack e1) then
           Inr ([], log (indent @ cross @ '' Infinite recursion detected'') e1)
         else
           (case prove_clauses n goal s depth (get_matching_clauses (kb e1) goal) []
                   (e1\<lparr>call_stack := call_stack e1 @ [(goal, snapshot s)]\<rparr>) of
              Inl err \<Rightarrow> Inl err
            | Inr (solutions, e2) \<Rightarrow>
                if call_stack e2 = [] then Inl IndexError
                else
                  (let e3 = e2\<lparr>call_stack := butlast (call_stack e2)\<rparr> in
                   Inr (solutions,
                        if solutions = [] then log (indent @ cross @ '' Cannot prove: '' @ goal_str) e3
                        else e3))))"
| "prove_clauses n goal s depth [] solutions e = Inr (solutions, e)"
| "prove_clauses n goal s depth (c # cs) solutions e =
     (let renamed_clause = rename_variables c depth in
      case unify n goal (head renamed_clause) s of
        Inl err \<Rightarrow> Inl err
      | Inr (Failed _) \<Rightarrow> prove_clauses n goal s depth cs solutions e
      | Inr (Unified unified_sub) \<Rightarrow>
          (let e1 = log (indent_of depth @ ''Unified with: '' @ str_clause renamed_clause) e in
           if is_fact renamed_clause then
             prove_clauses n goal s depth cs (solutions @ [unified_sub])
               (log (indent_of depth @ tick @ '' Fact proven: '' @ str_term (substitute goal s)) e1)
           else
             (case prove_body n (body renamed_clause) unified_sub (depth + 1)
                     (log (indent_of depth @ ''Proving body conditions...'') e1) of
                Inl err \<Rightarrow> Inl err
              | Inr (body_solutions, e2) \<Rightarrow>
                  prove_clauses n goal s depth cs (solutions @ body_solutions) e2)))"
| "prove_body 0 body_conditions s depth e = Inl RecursionError"
| "prove_body (Suc n) [] s depth e = Inr ([s], e)"
| "prove_body (Suc n) (first_condition # remaining_conditions) s depth e =
     (case prove n first_condition s depth e of
        Inl err \<Rightarrow> Inl err
      | Inr (first_solutions, e1) \<Rightarrow>
          prove_remaining n remaining_conditions depth first_solutions [] e1)"
| "prove_remaining n remaining_conditions depth [] solutions e = Inr (solutions, e)"
| "prove_remaining n remaining_conditions depth (solution # rest) solutions e =
     (case prove_body n remaining_conditions solution depth e of
        Inl err \<Rightarrow> Inl err
      | Inr (remaining_solutions, e1) \<Rightarrow>
          prove_remaining n remaining_conditions depth rest (solutions @ remaining_solutions) e1)"
  by pat_completeness auto

termination
  by (relation "inv_image (less_than <*lex*> less_than)
        (\<lambda>x. case x of
           Inl (Inl (n, goal, s, depth, e)) \<Rightarrow> (n, 0)
         | Inl (Inr (n, goal, s, depth, cs, solutions, e)) \<Rightarrow> (n, Suc (length cs))
         | Inr (Inl (n, conditions, s, depth, e)) \<Rightarrow> (n, 0)
         | Inr (Inr (n, conditions, depth, sols, solutions, e)) \<Rightarrow> (n, Suc (length sols)))")
    auto

text \<open>
  \<open>query\<close> resets both fields, builds the goal and proves it from the empty substitution
  at depth 0; it returns \<open>(solutions, self.trace)\<close> and leaves the engine in its last state.
\<close>

definition query ::
  "nat \<Rightarrow> engine \<Rightarrow> string \<Rightarrow> arg list \<Rightarrow> error + ((subst list \<times> string list) \<times> engine)" where
  "query n e predicate as =
     (let e0 = e\<lparr>trace := [], call_stack := []\<rparr>;
          goal = Term predicate as
      in case prove n goal [] 0 e0 of
           Inl err \<Rightarrow> Inl err
         | Inr (solutions, e1) \<Rightarrow> Inr ((solutions, trace e1), e1))"

section \<open>Auxiliary definitions for the statements\<close>

text \<open>The contents of the dict handed to \<open>unify\<close>, after the call.\<close>

fun dict_after :: "unify_outcome \<Rightarrow> subst" where
  "dict_after (Unified s) = s"
| "dict_after (Failed s) = s"

text \<open>What \<open>query\<close> returns: the pair \<open>(solutions, trace)\<close>, or the error raised.\<close>

definition returned ::
  "error + ((subst list \<times> string list) \<times> engine) \<Rightarrow> error + (subst list \<times> string list)" where
  "returned r = map_sum id fst r"

text \<open>Knowledge bases used as concrete inputs.\<close>

definition kb_pa :: knowledge_base where
  "kb_pa = add_fact empty_kb ''p'' [Raw ''a'']"

definition kb_loop :: knowledge_base where
  "kb_loop = add_rule empty_kb ''loop'' [Raw ''X''] [(''loop'', [Raw ''X''])]"

text \<open>The engine with its knowledge base's ground-fact cache emptied.\<close>

definition forget_facts :: "engine \<Rightarrow> engine" where
  "forget_facts e = e\<lparr>kb := (kb e)\<lparr>facts := {}\<rparr>\<rparr>"

abbreviation forgetting ::
  "error + (subst list \<times> engine) \<Rightarrow> error + (subst list \<times> engine)" where
  "forgetting \<equiv> map_sum id (map_prod id forget_facts)"

definition kb_loop0 :: knowledge_base where
  "kb_loop0 = add_rule empty_kb ''loop'' [] [(''loop'', [])]"

text \<open>The rule \<open>loop(X) :- loop(X)\<close> as \<open>add_rule\<close> stores it.\<close>

abbreviation loop_rule :: clause where
  "loop_rule \<equiv> \<lparr>head = Term ''loop'' [Raw ''X''], body = [Term ''loop'' [Raw ''X'']]\<rparr>"

text \<open>
  Ground facts as the interface builds them: the arguments are raw strings that are not
  variable names.
\<close>

fun is_raw_constant :: "arg \<Rightarrow> bool" where
  "is_raw_constant (Raw x) = (\<not> isupper x)"
| "is_raw_constant (Sub t) = False"

definition is_ground_fact :: "clause \<Rightarrow> bool" where
  "is_ground_fact c = (is_fact c \<and> list_all is_raw_constant (args (head c)))"

text \<open>The solutions a query returns, or the error raised.\<close>

definition solutions_of ::
  "error + ((subst list \<times> string list) \<times> engine) \<Rightarrow> error + subst list" where
  "solutions_of r = map_sum id (fst \<circ> fst) r"

definition kb_PA :: knowledge_base where
  "kb_PA = add_fact empty_kb ''P'' [Raw ''a'']"

definition kb_pa_twice :: knowledge_base where
  "kb_pa_twice = add_fact kb_pa ''p'' [Raw ''a'']"

definition kb_pab :: knowledge_base where
  "kb_pab = add_fact (add_fact (add_fact empty_kb ''p'' [Raw ''a'', Raw ''b'']) ''p'' [Raw ''a'', Raw ''c''])
              ''q'' [Raw ''X'']"

text \<open>The demonstration's grandparent rule over two \<open>parent\<close> facts.\<close>

definition kb_family :: knowledge_base where
  "kb_family =
     add_rule
       (add_fact (add_fact empty_kb ''parent'' [Raw ''john'', Raw ''mary''])
          ''parent'' [Raw ''mary'', Raw ''alice''])
       ''grandparent'' [Raw ''X'', Raw ''Z'']
       [(''parent'', [Raw ''X'', Raw ''Y'']), (''parent'', [Raw ''Y'', Raw ''Z''])]"

text \<open>The ASCII characters, the domain of the case table above.\<close>

definition is_ascii_char :: "char \<Rightarrow> bool" where
  "is_ascii_char c = (c < CHR 0x80)"

text \<open>
  Positions in a term. \<open>arg_at t p\<close> is the argument of \<open>t\<close> reached by the argument
  indices \<open>p\<close>, going down through term arguments (\<open>[]\<close> is \<open>t\<close> itself).
  \<open>binding s x\<close> is what \<open>s\<close> binds the variable name \<open>x\<close> to; an argument is bound when
  it is a raw variable name or a variable term with a binding. \<open>open_path s t p\<close>: no term
  passed on the way down is itself a bound variable, which \<open>substitute\<close> would replace
  whole, dropping its arguments.
\<close>

definition binding :: "subst \<Rightarrow> string \<Rightarrow> pterm option" where
  "binding s x = (if isupper x then map_of s x else None)"

fun arg_binding :: "subst \<Rightarrow> arg \<Rightarrow> pterm option" where
  "arg_binding s (Raw x) = binding s x"
| "arg_binding s (Sub t) = binding s (name t)"

fun arg_at :: "pterm \<Rightarrow> nat list \<Rightarrow> arg option" where
  "arg_at t [] = Some (Sub t)"
| "arg_at t (i # p) =
     (if i < length (args t) then
        (case args t ! i of
           Raw x \<Rightarrow> if p = [] then Some (Raw x) else None
         | Sub u \<Rightarrow> arg_at u p)
      else None)"

fun open_path :: "subst \<Rightarrow> pterm \<Rightarrow> nat list \<Rightarrow> bool" where
  "open_path s t [] = True"
| "open_path s t (i # p) =
     (binding s (name t) = None \<and> i < length (args t) \<and>
      (case args t ! i of Raw x \<Rightarrow> p = [] | Sub u \<Rightarrow> open_path s u p))"

text \<open>
  The search as the specification words it (section 4.4), to compare \<open>prove\<close> with. A call
  yields its solutions and its trace lines; nothing is threaded. The call stack is the
  list \<open>active\<close> of the calls that are still open, extended for the duration of a call.
  The candidates are every clause whose head has the goal's predicate name and argument
  count, in insertion order; the result is the concatenation over the candidates in that
  order (\<open>collect\<close>), each candidate searched to the end before the next (depth first), and
  a rule's conditions are proved from left to right, the remaining ones once for each
  solution of the first, in the order of those solutions.
\<close>

type_synonym outcome = "error + (subst list \<times> string list)"

fun collect :: "('a \<Rightarrow> outcome) \<Rightarrow> 'a list \<Rightarrow> outcome" where
  "collect f [] = Inr ([], [])"
| "collect f (x # xs) =
     (case f x of
        Inl err \<Rightarrow> Inl err
      | Inr (sols, lines) \<Rightarrow>
          (case collect f xs of
             Inl err \<Rightarrow> Inl err
           | Inr (sols', lines') \<Rightarrow> Inr (sols @ sols', lines @ lines')))"

function dfs_goal ::
    "nat \<Rightarrow> knowledge_base \<Rightarrow> (pterm \<times> (string \<times> pterm) list) list \<Rightarrow> pterm \<Rightarrow> subst \<Rightarrow> nat
      \<Rightarrow> outcome"
  and dfs_clause ::
    "nat \<Rightarrow> knowledge_base \<Rightarrow> (pterm \<times> (string \<times> pterm) list) list \<Rightarrow> pterm \<Rightarrow> subst \<Rightarrow> nat
      \<Rightarrow> clause \<Rightarrow> outcome"
  and dfs_conjunction ::
    "nat \<Rightarrow> knowledge_base \<Rightarrow> (pterm \<times> (string \<times> pterm) list) list \<Rightarrow> pterm list \<Rightarrow> subst
      \<Rightarrow> nat \<Rightarrow> outcome" where
  "dfs_goal 0 k active goal s depth = Inl RecursionError"
| "dfs_goal (Suc n) k active goal s depth =
     (let attempt = indent_of depth @ ''Trying to prove: '' @ str_term (substitute goal s) in
      if (goal, snapshot s) \<in> set active then
        Inr ([], [attempt, indent_of depth @ cross @ '' Infinite recursion detected''])
      else
        (case collect (dfs_clause n k (active @ [(goal, snapshot s)]) goal s depth)
                (filter (\<lambda>c. name (head c) = name goal \<and>
                              length (args (head c)) = length (args goal)) (clauses k)) of
           Inl err \<Rightarrow> Inl err
         | Inr (sols, lines) \<Rightarrow>
             Inr (sols,
                  [attempt] @ lines @
                  (if sols = [] then
                     [indent_of depth @ cross @ '' Cannot prove: '' @ str_term (substitute goal s)]
                   else []))))"
| "dfs_clause n k active goal s depth c =
     (let renamed = rename_variables c depth;
          unified = indent_of depth @ ''Unified with: '' @ str_clause renamed in
      case unify n goal (head renamed) s of
        Inl err \<Rightarrow> Inl err
      | Inr (Failed _) \<Rightarrow> Inr ([], [])
      | Inr (Unified u) \<Rightarrow>
          if body renamed = [] then
            Inr ([u], [unified,
                       indent_of depth @ tick @ '' Fact proven: '' @ str_term (substitute goal s)])
          else
            (case dfs_conjunction n k active (body renamed) u (depth + 1) of
               Inl err \<Rightarrow> Inl err
             | Inr (sols, lines) \<Rightarrow>
                 Inr (sols, [unified, indent_of depth @ ''Proving body conditions...''] @ lines)))"
| "dfs_conjunction 0 k active conditions s depth = Inl RecursionError"
| "dfs_conjunction (Suc n) k active [] s depth = Inr ([s], [])"
| "dfs_conjunction (Suc n) k active (first # remaining) s depth =
     (case dfs_goal n k active first s depth of
        Inl err \<Rightarrow> Inl err
      | Inr (firsts, lines) \<Rightarrow>
          (case collect (\<lambda>s'. dfs_conjunction n k active remaining s' depth) firsts of
             Inl err \<Rightarrow> Inl err
           | Inr (sols, lines') \<Rightarrow> Inr (sols, lines @ lines')))"
  by pat_completeness auto

termination
  by (relation "inv_image (less_than <*lex*> less_than)
        (\<lambda>x. case x of
           Inl (n, k, active, goal, s, depth) \<Rightarrow> (n, 0)
         | Inr (Inl (n, k, active, goal, s, depth, c)) \<Rightarrow> (n, Suc 0)
         | Inr (Inr (n, k, active, conditions, s, depth)) \<Rightarrow> (n, 0))")
    auto

text \<open>The effect on the engine of a search that yields \<open>r\<close>, with the accumulator \<open>acc\<close>.\<close>

definition replay :: "subst list \<Rightarrow> engine \<Rightarrow> outcome \<Rightarrow> error + (subst list \<times> engine)" where
  "replay acc e r =
     (case r of
        Inl err \<Rightarrow> Inl err
      | Inr (sols, lines) \<Rightarrow> Inr (acc @ sols, e\<lparr>trace := trace e @ lines\<rparr>))"

text \<open>Two facts for one predicate, in this order.\<close>

definition kb_p_a_b :: knowledge_base where
  "kb_p_a_b = add_fact (add_fact empty_kb ''p'' [Raw ''a'']) ''p'' [Raw ''b'']"

section \<open>Variable classification\<close>

lemma isupper_scan_iff:
  "isupper_scan cased s = ((cased \<or> list_ex is_upper_char s) \<and> \<not> list_ex is_lower_char s)"
  by (induction s arbitrary: cased) auto

text \<open>
  C4 (amended). For a name of ASCII characters: a term is classified as a variable exactly
  when its name has at least one upper-case letter and no lower-case letter
  (\<open>str.isupper\<close>), whatever its leading character and whatever its arguments; the
  classification is a function of the name alone and so never changes for a term.
\<close>

theorem is_variable_iff_isupper:
  assumes "list_all is_ascii_char nm"
  shows "is_variable (Term nm as) = (list_ex is_upper_char nm \<and> \<not> list_ex is_lower_char nm)"
  by (simp add: isupper_def isupper_scan_iff)

theorem is_variable_iff_isupper_witness:
  "list_all is_ascii_char ''X_0'' \<and> is_variable (Term ''X_0'' [Raw ''a'']) \<and>
   list_ex is_upper_char ''X_0'' \<and> \<not> list_ex is_lower_char ''X_0'' \<and>
   list_all is_ascii_char ''Xy'' \<and> \<not> is_variable (Term ''Xy'' []) \<and> list_ex is_lower_char ''Xy''"
proof -
  have h1: "list_all is_ascii_char ''X_0''" and h2: "list_all is_ascii_char ''Xy''"
    by code_simp+
  have v: "list_ex is_upper_char ''X_0''" "\<not> list_ex is_lower_char ''X_0''"
    "list_ex is_lower_char ''Xy''"
    by code_simp+
  from is_variable_iff_isupper [OF h1, of "[Raw ''a'']"] is_variable_iff_isupper [OF h2, of "[]"]
    h1 h2 v
  show ?thesis by simp
qed

text \<open>
  C4 as stated fails: \<open>Xy\<close> starts with an upper-case letter and is not a variable, and
  \<open>1A\<close> does not and is one.
\<close>

theorem leading_uppercase_counterexample:
  "is_upper_char (hd ''Xy'') \<and> \<not> is_variable (Term ''Xy'' []) \<and>
   \<not> is_upper_char (hd ''1A'') \<and> is_variable (Term ''1A'' [])"
  by (simp add: isupper_def is_upper_char_def is_lower_char_def)

section \<open>Substitution and unification\<close>

lemma length_substitute_args [simp]: "length (substitute_args as s) = length as"
  by (induction as) auto

lemma map_of_dict_set: "map_of (dict_set k v s) = (map_of s)(k \<mapsto> v)"
  by (induction s) auto

lemma substitute_nonvar:
  "\<not> isupper f \<Longrightarrow> substitute (Term f as) s = Term f (substitute_args as s)"
  by (cases as) auto

lemma nth_substitute_args:
  "i < length as \<Longrightarrow> substitute_args as s ! i = substitute_arg (as ! i) s"
  by (induction as arbitrary: i) (auto simp: nth_Cons')

lemma substitute_unbound:
  "binding s (name t) = None \<Longrightarrow> substitute t s = Term (name t) (substitute_args (args t) s)"
  by (cases t; cases "args t") (auto simp: binding_def split: if_splits)

lemma substitute_replaces_at:
  "open_path s t p \<Longrightarrow> arg_at t p = Some a \<Longrightarrow> arg_binding s a = Some b \<Longrightarrow>
     arg_at (substitute t s) p = Some (Sub b)"
proof (induction p arbitrary: t)
  case Nil
  then show ?case by (cases t) (auto simp: binding_def split: if_splits)
next
  case (Cons i p)
  from Cons.prems(1) have unb: "binding s (name t) = None" and i: "i < length (args t)"
    by simp_all
  note st = substitute_unbound [OF unb]
  show ?case
  proof (cases "args t ! i")
    case (Raw x)
    with Cons.prems i have "p = []" and "a = Raw x" and "binding s x = Some b"
      by (auto split: if_splits)
    with Raw i show ?thesis
      by (simp add: st nth_substitute_args binding_def split: if_splits)
  next
    case (Sub u)
    with Cons.prems i have "open_path s u p" and "arg_at u p = Some a" by auto
    from Cons.IH [OF this Cons.prems(3)] Sub i show ?thesis
      by (simp add: st nth_substitute_args)
  qed
qed

lemma unify_resolved:
  "substitute u1 s = substitute t1 s \<Longrightarrow> substitute u2 s = substitute t2 s \<Longrightarrow>
     unify n u1 u2 s = unify n t1 t2 s"
  by (cases n) (simp_all del: substitute.simps)

text \<open>
  C2 (amended). Step 1 of \<open>unify\<close> replaces both terms by their images under
  \<open>substitute\<close>, and the rest of the call depends on the two terms through these images
  only. In the image, every occurrence of a bound variable is replaced by the value the
  substitution binds it to directly, one dereference step: the term itself, a raw
  variable argument, or a variable term among the arguments, at any depth inside compound
  arguments. The value is put in as it is, also when it is or contains a bound variable.
\<close>

theorem unify_step1_replaces_bound_occurrences:
  assumes "open_path s t p" and "arg_at t p = Some a" and "arg_binding s a = Some b"
  shows "arg_at (substitute t s) p = Some (Sub b) \<and>
         (\<forall>u. substitute u s = substitute t s \<longrightarrow>
              unify n u t2 s = unify n t t2 s \<and> unify n t2 u s = unify n t2 t s)"
  using substitute_replaces_at [OF assms] by (auto intro: unify_resolved)

theorem unify_step1_replaces_bound_occurrences_witness:
  "open_path [(''X'', Term ''Y'' []), (''Y'', Term ''a'' [])]
     (Term ''f'' [Sub (Term ''g'' [Raw ''X''])]) [0, 0] \<and>
   arg_at (Term ''f'' [Sub (Term ''g'' [Raw ''X''])]) [0, 0] = Some (Raw ''X'') \<and>
   arg_binding [(''X'', Term ''Y'' []), (''Y'', Term ''a'' [])] (Raw ''X'') = Some (Term ''Y'' []) \<and>
   arg_at (substitute (Term ''f'' [Sub (Term ''g'' [Raw ''X''])])
             [(''X'', Term ''Y'' []), (''Y'', Term ''a'' [])]) [0, 0]
     = Some (Sub (Term ''Y'' [])) \<and>
   substitute (Term ''f'' [Sub (Term ''g'' [Sub (Term ''X'' [])])])
       [(''X'', Term ''Y'' []), (''Y'', Term ''a'' [])]
     = substitute (Term ''f'' [Sub (Term ''g'' [Raw ''X''])])
         [(''X'', Term ''Y'' []), (''Y'', Term ''a'' [])] \<and>
   unify 4 (Term ''f'' [Sub (Term ''g'' [Sub (Term ''X'' [])])]) (Term ''f'' [Sub (Term ''g'' [Raw ''a''])])
       [(''X'', Term ''Y'' []), (''Y'', Term ''a'' [])]
     = unify 4 (Term ''f'' [Sub (Term ''g'' [Raw ''X''])]) (Term ''f'' [Sub (Term ''g'' [Raw ''a''])])
         [(''X'', Term ''Y'' []), (''Y'', Term ''a'' [])]"
proof -
  let ?s = "[(''X'', Term ''Y'' []), (''Y'', Term ''a'' [])]"
  let ?t = "Term ''f'' [Sub (Term ''g'' [Raw ''X''])]"
  let ?u = "Term ''f'' [Sub (Term ''g'' [Sub (Term ''X'' [])])]"
  have h1: "open_path ?s ?t [0, 0]" by code_simp
  have h2: "arg_at ?t [0, 0] = Some (Raw ''X'')" by code_simp
  have h3: "arg_binding ?s (Raw ''X'') = Some (Term ''Y'' [])" by code_simp
  have h4: "substitute ?u ?s = substitute ?t ?s" by code_simp
  from unify_step1_replaces_bound_occurrences [OF h1 h2 h3, of 4 "Term ''f'' [Sub (Term ''g'' [Raw ''a''])]"]
    h1 h2 h3 h4
  show ?thesis by blast
qed

text \<open>
  C2 as stated fails: under \<open>{X: Y, Y: a}\<close>, a dict that \<open>unify\<close> itself builds from
  \<open>f(X, Y)\<close> and \<open>f(Y, a)\<close>, the variable \<open>X\<close> resolves to \<open>Y\<close> and not to \<open>a\<close>,
  at top level and inside a compound.
\<close>

theorem substitute_chain_counterexample:
  "substitute (Term ''X'' []) [(''X'', Term ''Y'' []), (''Y'', Term ''a'' [])] = Term ''Y'' [] \<and>
   substitute (Term ''f'' [Raw ''X'']) [(''X'', Term ''Y'' []), (''Y'', Term ''a'' [])]
     = Term ''f'' [Sub (Term ''Y'' [])] \<and>
   unify 3 (Term ''f'' [Raw ''X'', Raw ''Y'']) (Term ''f'' [Raw ''Y'', Raw ''a'']) []
     = Inr (Unified [(''X'', Term ''Y'' []), (''Y'', Term ''a'' [])])"
  by (simp add: isupper_def is_upper_char_def is_lower_char_def numeral_3_eq_3)

text \<open>
  C5 (amended). Two terms whose functor names are not classified as variables and that
  differ in functor name or in argument count never unify, whatever the substitution holds:
  \<open>unify\<close> returns \<open>None\<close> and leaves the dict as it was. (One call level suffices; the
  terms may be compounds or atoms.)
\<close>

theorem unify_functor_mismatch_fails:
  assumes "\<not> isupper f" and "\<not> isupper g" and "f \<noteq> g \<or> length as \<noteq> length bs"
  shows "unify (Suc n) (Term f as) (Term g bs) s = Inr (Failed s)"
proof -
  have ne: "Term f (substitute_args as s) \<noteq> Term g (substitute_args bs s)"
    using assms(3) by (auto dest: arg_cong [where f = length])
  show ?thesis
    using assms ne by (auto simp add: substitute_nonvar simp del: substitute.simps)
qed

theorem unify_functor_mismatch_fails_witness:
  "\<not> isupper ''f'' \<and> \<not> isupper ''g'' \<and> ''f'' \<noteq> ''g'' \<and>
   unify 1 (Term ''f'' [Raw ''X'']) (Term ''g'' [Raw ''X'']) [(''X'', Term ''a'' [])]
     = Inr (Failed [(''X'', Term ''a'' [])])"
proof -
  have h: "\<not> isupper ''f''" "\<not> isupper ''g''"
    by (simp_all add: isupper_def is_upper_char_def is_lower_char_def)
  have d: "''f'' \<noteq> ''g'' \<or> length [Raw ''X''] \<noteq> length [Raw ''X'']" by simp
  show ?thesis
    using h unify_functor_mismatch_fails [OF h d, of 0 "[(''X'', Term ''a'' [])]"] by simp
qed

text \<open>
  C5 as stated fails: the compound \<open>F(a)\<close> has an upper-case functor name, so it is a
  variable, and unifying it with \<open>g(a)\<close> succeeds by binding \<open>F\<close>.
\<close>

theorem uppercase_functor_counterexample:
  "unify 1 (Term ''F'' [Raw ''a'']) (Term ''g'' [Raw ''a'']) []
     = Inr (Unified [(''F'', Term ''g'' [Raw ''a''])])"
  by (simp add: isupper_def is_upper_char_def is_lower_char_def)

text \<open>\<open>unify\<close> only ever adds bindings: what the dict held before the call, it holds after.\<close>

lemma unify_extends_aux:
  "unify n t1 t2 s = Inr r \<Longrightarrow> map_of s \<subseteq>\<^sub>m map_of (dict_after r)"
  "unify_args n ps s = Inr r \<Longrightarrow> map_of s \<subseteq>\<^sub>m map_of (dict_after r)"
proof (induction n t1 t2 s and n ps s arbitrary: r and r rule: unify_unify_args.induct)
  case (1 t1 t2 s)
  then show ?case by simp
next
  case (2 n t1 t2 s)
  then show ?case
    by (auto simp: Let_def map_of_dict_set map_le_def split: option.splits if_splits)
next
  case (3 n s)
  then show ?case by auto
next
  case (4 n p ps s)
  show ?case
  proof (cases "unify n (arg_term (fst p)) (arg_term (snd p)) s")
    case (Inl e)
    with "4.prems" show ?thesis by simp
  next
    case (Inr b)
    note h = "4.IH"(1) [OF Inr]
    show ?thesis
    proof (cases b)
      case (Unified s')
      with Inr "4.prems" have "unify_args n ps s' = Inr r" by simp
      from "4.IH"(2) [OF Inr Unified this] h Unified show ?thesis
        by (auto intro: map_le_trans)
    next
      case (Failed s')
      with Inr "4.prems" h show ?thesis by auto
    qed
  qed
qed

lemma unify_args_same:
  "unify_args n (zip xs xs) s = Inr r \<Longrightarrow> r = Unified s"
proof (induction xs)
  case Nil
  then show ?case by simp
next
  case (Cons a xs)
  then show ?case by (cases n) auto
qed

text \<open>
  C3 (amended). When \<open>unify\<close> is called on two compounds with the same functor name (not a
  variable name) and the same number of arguments, and the pairwise unification of their
  resolved arguments fails, the whole call fails. The dict that was passed in keeps every
  binding it had, and holds in addition the bindings made for the argument pairs before
  the failing one: \<open>unify\<close> writes into the caller's dict, and \<open>prove\<close> protects its own
  substitution by passing \<open>substitution.copy()\<close>.
\<close>

theorem unify_args_failure_fails_call:
  assumes "\<not> isupper f" and "length as = length bs"
    and "unify_args n (zip (substitute_args as s) (substitute_args bs s)) s = Inr (Failed s')"
  shows "unify (Suc n) (Term f as) (Term f bs) s = Inr (Failed s') \<and> map_of s \<subseteq>\<^sub>m map_of s'"
proof -
  have "substitute_args as s \<noteq> substitute_args bs s"
    using assms(3) unify_args_same by fastforce
  then have "unify (Suc n) (Term f as) (Term f bs) s = Inr (Failed s')"
    using assms by (simp add: substitute_nonvar del: substitute.simps)
  moreover have "map_of s \<subseteq>\<^sub>m map_of s'"
    using unify_extends_aux(2) [OF assms(3)] by simp
  ultimately show ?thesis by simp
qed

theorem unify_args_failure_fails_call_witness:
  "\<not> isupper ''f'' \<and>
   unify_args 1 (zip (substitute_args [Raw ''X'', Raw ''b''] [])
                     (substitute_args [Raw ''a'', Raw ''c''] [])) []
     = Inr (Failed [(''X'', Term ''a'' [])]) \<and>
   unify 2 (Term ''f'' [Raw ''X'', Raw ''b'']) (Term ''f'' [Raw ''a'', Raw ''c'']) []
     = Inr (Failed [(''X'', Term ''a'' [])]) \<and>
   map_of [] \<subseteq>\<^sub>m map_of [(''X'', Term ''a'' [])]"
proof -
  have h1: "\<not> isupper ''f''"
    by (simp add: isupper_def is_upper_char_def is_lower_char_def)
  have h2: "length [Raw ''X'', Raw ''b''] = length [Raw ''a'', Raw ''c'']" by simp
  have h3: "unify_args 1 (zip (substitute_args [Raw ''X'', Raw ''b''] [])
              (substitute_args [Raw ''a'', Raw ''c''] [])) []
            = Inr (Failed [(''X'', Term ''a'' [])])"
    by (simp add: isupper_def is_upper_char_def is_lower_char_def)
  show ?thesis
    using h1 h3 unify_args_failure_fails_call [OF h1 h2 h3]
    by (simp add: numeral_2_eq_2)
qed

text \<open>
  C3 as stated fails: unifying \<open>f(X, b)\<close> with \<open>f(a, c)\<close> from the empty dict fails at the
  second pair, and the dict is left holding \<open>X: a\<close> from the first.
\<close>

theorem unify_failure_keeps_partial_bindings_counterexample:
  "unify 2 (Term ''f'' [Raw ''X'', Raw ''b'']) (Term ''f'' [Raw ''a'', Raw ''c'']) []
     = Inr (Failed [(''X'', Term ''a'' [])]) \<and>
   dict_after (Failed [(''X'', Term ''a'' [])]) \<noteq> []"
  by (simp add: isupper_def is_upper_char_def is_lower_char_def numeral_2_eq_2)

section \<open>The proof search\<close>

lemmas prove_induct = prove_prove_clauses_prove_body_prove_remaining.induct

lemma log_fields [simp]:
  "kb (log l e) = kb e" "call_stack (log l e) = call_stack e" "trace (log l e) = trace e @ [l]"
  by (simp_all add: log_def)

text \<open>A call that returns leaves the knowledge base and the call stack as it found them.\<close>

lemma prove_frame_aux:
  "prove n goal s depth e = Inr (sols, e') \<Longrightarrow> kb e' = kb e \<and> call_stack e' = call_stack e"
  "prove_clauses n goal s depth cs acc e = Inr (sols, e') \<Longrightarrow>
     kb e' = kb e \<and> call_stack e' = call_stack e"
  "prove_body n conds s depth e = Inr (sols, e') \<Longrightarrow> kb e' = kb e \<and> call_stack e' = call_stack e"
  "prove_remaining n conds depth firsts acc e = Inr (sols, e') \<Longrightarrow>
     kb e' = kb e \<and> call_stack e' = call_stack e"
proof (induction n goal s depth e and n goal s depth cs acc e and n conds s depth e
         and n conds depth firsts acc e arbitrary: sols e' and sols e' and sols e' and sols e'
         rule: prove_induct)
  case (1 goal s depth e)
  then show ?case by simp
next
  case (2 n goal s depth e)
  let ?e1 = "log (indent_of depth @ ''Trying to prove: '' @ str_term (substitute goal s)) e"
  show ?case
  proof (cases "(goal, snapshot s) \<in> set (call_stack ?e1)")
    case True
    with "2.prems" show ?thesis by (auto simp: Let_def)
  next
    case False
    with "2.prems" obtain e2 where
      pc: "prove_clauses n goal s depth (get_matching_clauses (kb ?e1) goal) []
             (?e1\<lparr>call_stack := call_stack ?e1 @ [(goal, snapshot s)]\<rparr>) = Inr (sols, e2)"
      and ne: "call_stack e2 \<noteq> []"
      and e': "kb e' = kb e2 \<and> call_stack e' = butlast (call_stack e2)"
      by (auto simp: Let_def split: sum.splits if_splits)
    from "2.IH" [OF refl refl refl False pc] e' show ?thesis by simp
  qed
next
  case (3 n goal s depth solutions e)
  then show ?case by simp
next
  case (4 n goal s depth c cs solutions e)
  let ?rc = "rename_variables c depth"
  let ?e1 = "log (indent_of depth @ ''Unified with: '' @ str_clause ?rc) e"
  show ?case
  proof (cases "unify n goal (head ?rc) s")
    case (Inl err)
    with "4.prems" show ?thesis by (simp add: Let_def)
  next
    case (Inr b)
    show ?thesis
    proof (cases b)
      case (Failed s2)
      with Inr "4.prems" have "prove_clauses n goal s depth cs solutions e = Inr (sols, e')"
        by (simp add: Let_def)
      from "4.IH"(4) [OF refl Inr Failed this] show ?thesis .
    next
      case (Unified u)
      show ?thesis
      proof (cases "is_fact ?rc")
        case True
        with Inr Unified "4.prems" have
          "prove_clauses n goal s depth cs (solutions @ [u])
             (log (indent_of depth @ tick @ '' Fact proven: '' @ str_term (substitute goal s)) ?e1)
           = Inr (sols, e')"
          by (simp add: Let_def)
        from "4.IH"(1) [OF refl Inr Unified refl True this] show ?thesis by simp
      next
        case False
        let ?e2 = "log (indent_of depth @ ''Proving body conditions...'') ?e1"
        from False Inr Unified "4.prems" obtain bs e3 where
          pb: "prove_body n (body ?rc) u (depth + 1) ?e2 = Inr (bs, e3)"
          and pc: "prove_clauses n goal s depth cs (solutions @ bs) e3 = Inr (sols, e')"
          by (auto simp: Let_def split: sum.splits)
        from "4.IH"(2) [OF refl Inr Unified refl False pb]
          "4.IH"(3) [OF refl Inr Unified refl False pb refl pc]
        show ?thesis by simp
      qed
    qed
  qed
next
  case (5 body_conditions s depth e)
  then show ?case by simp
next
  case (6 n s depth e)
  then show ?case by simp
next
  case (7 n first_condition remaining_conditions s depth e)
  from "7.prems" obtain fs e1 where
    p: "prove n first_condition s depth e = Inr (fs, e1)"
    and r: "prove_remaining n remaining_conditions depth fs [] e1 = Inr (sols, e')"
    by (auto split: sum.splits)
  from "7.IH"(1) [OF p] "7.IH"(2) [OF p refl r] show ?case by simp
next
  case (8 n remaining_conditions depth solutions e)
  then show ?case by simp
next
  case (9 n remaining_conditions depth solution rest solutions e)
  from "9.prems" obtain rs e1 where
    p: "prove_body n remaining_conditions solution depth e = Inr (rs, e1)"
    and r: "prove_remaining n remaining_conditions depth rest (solutions @ rs) e1 = Inr (sols, e')"
    by (auto split: sum.splits)
  from "9.IH"(1) [OF p] "9.IH"(2) [OF p refl r] show ?case by simp
qed

text \<open>
  C8. Every call of \<open>prove\<close> that returns leaves the call stack exactly as it found it,
  whether it returns solutions, none, or stops at the cycle guard: the entry pushed
  before the clauses are tried is the one popped after them.
\<close>

theorem prove_restores_call_stack:
  "prove n goal s depth e = Inr (sols, e') \<Longrightarrow> call_stack e' = call_stack e"
  by (simp add: prove_frame_aux(1))

theorem prove_restores_call_stack_witness:
  "(\<exists>e'. prove 3 (Term ''p'' [Raw ''X'']) [] 0
            ((new_engine kb_pa)\<lparr>call_stack := [(Term ''q'' [], [])]\<rparr>)
          = Inr ([[(''X'', Term ''a'' [])]], e') \<and>
         call_stack e' = [(Term ''q'' [], [])]) \<and>
   (\<exists>e'. prove 3 (Term ''r'' [Raw ''X'']) [] 0
            ((new_engine kb_pa)\<lparr>call_stack := [(Term ''q'' [], [])]\<rparr>)
          = Inr ([], e') \<and>
         call_stack e' = [(Term ''q'' [], [])])"
proof -
  let ?e = "(new_engine kb_pa)\<lparr>call_stack := [(Term ''q'' [], [])]\<rparr>"
  have "map_sum id fst (prove 3 (Term ''p'' [Raw ''X'']) [] 0 ?e) = Inr [[(''X'', Term ''a'' [])]]"
    by code_simp
  then obtain e1 where
    p1: "prove 3 (Term ''p'' [Raw ''X'']) [] 0 ?e = Inr ([[(''X'', Term ''a'' [])]], e1)"
    by (cases "prove 3 (Term ''p'' [Raw ''X'']) [] 0 ?e") auto
  have "map_sum id fst (prove 3 (Term ''r'' [Raw ''X'']) [] 0 ?e) = Inr []"
    by code_simp
  then obtain e2 where p2: "prove 3 (Term ''r'' [Raw ''X'']) [] 0 ?e = Inr ([], e2)"
    by (cases "prove 3 (Term ''r'' [Raw ''X'']) [] 0 ?e") auto
  from prove_restores_call_stack [OF p1] prove_restores_call_stack [OF p2] p1 p2
  show ?thesis by simp
qed

text \<open>The solutions of a call extend the substitution the call was given.\<close>

lemma prove_extends_aux:
  "prove n goal s depth e = Inr (sols, e') \<Longrightarrow> \<forall>x\<in>set sols. map_of s \<subseteq>\<^sub>m map_of x"
  "prove_clauses n goal s depth cs acc e = Inr (sols, e') \<Longrightarrow>
     \<forall>x\<in>set acc. map_of s \<subseteq>\<^sub>m map_of x \<Longrightarrow> \<forall>x\<in>set sols. map_of s \<subseteq>\<^sub>m map_of x"
  "prove_body n conds s depth e = Inr (sols, e') \<Longrightarrow> \<forall>x\<in>set sols. map_of s \<subseteq>\<^sub>m map_of x"
  "prove_remaining n conds depth firsts acc e = Inr (sols, e') \<Longrightarrow>
     \<forall>x\<in>set firsts. m \<subseteq>\<^sub>m map_of x \<Longrightarrow> \<forall>x\<in>set acc. m \<subseteq>\<^sub>m map_of x \<Longrightarrow>
     \<forall>x\<in>set sols. m \<subseteq>\<^sub>m map_of x"
proof (induction n goal s depth e and n goal s depth cs acc e and n conds s depth e
         and n conds depth firsts acc e
         arbitrary: sols e' and sols e' and sols e' and sols e' m
         rule: prove_induct)
  case (1 goal s depth e)
  then show ?case by simp
next
  case (2 n goal s depth e)
  let ?e1 = "log (indent_of depth @ ''Trying to prove: '' @ str_term (substitute goal s)) e"
  show ?case
  proof (cases "(goal, snapshot s) \<in> set (call_stack ?e1)")
    case True
    with "2.prems" show ?thesis by (auto simp: Let_def)
  next
    case False
    with "2.prems" obtain e2 where
      pc: "prove_clauses n goal s depth (get_matching_clauses (kb ?e1) goal) []
             (?e1\<lparr>call_stack := call_stack ?e1 @ [(goal, snapshot s)]\<rparr>) = Inr (sols, e2)"
      by (auto simp: Let_def split: sum.splits if_splits)
    from "2.IH" [OF refl refl refl False pc] show ?thesis by simp
  qed
next
  case (3 n goal s depth solutions e)
  then show ?case by simp
next
  case (4 n goal s depth c cs solutions e)
  let ?rc = "rename_variables c depth"
  let ?e1 = "log (indent_of depth @ ''Unified with: '' @ str_clause ?rc) e"
  show ?case
  proof (cases "unify n goal (head ?rc) s")
    case (Inl err)
    with "4.prems" show ?thesis by (simp add: Let_def)
  next
    case (Inr b)
    show ?thesis
    proof (cases b)
      case (Failed s2)
      with Inr "4.prems" have "prove_clauses n goal s depth cs solutions e = Inr (sols, e')"
        by (simp add: Let_def)
      from "4.IH"(4) [OF refl Inr Failed this "4.prems"(2)] show ?thesis .
    next
      case (Unified u)
      have su: "map_of s \<subseteq>\<^sub>m map_of u"
        using unify_extends_aux(1) [OF Inr] Unified by simp
      show ?thesis
      proof (cases "is_fact ?rc")
        case True
        with Inr Unified "4.prems" have
          "prove_clauses n goal s depth cs (solutions @ [u])
             (log (indent_of depth @ tick @ '' Fact proven: '' @ str_term (substitute goal s)) ?e1)
           = Inr (sols, e')"
          by (simp add: Let_def)
        from "4.IH"(1) [OF refl Inr Unified refl True this] su "4.prems"(2)
        show ?thesis by simp
      next
        case False
        let ?e2 = "log (indent_of depth @ ''Proving body conditions...'') ?e1"
        from False Inr Unified "4.prems" obtain bs e3 where
          pb: "prove_body n (body ?rc) u (depth + 1) ?e2 = Inr (bs, e3)"
          and pc: "prove_clauses n goal s depth cs (solutions @ bs) e3 = Inr (sols, e')"
          by (auto simp: Let_def split: sum.splits)
        have "\<forall>x\<in>set bs. map_of s \<subseteq>\<^sub>m map_of x"
          using "4.IH"(2) [OF refl Inr Unified refl False pb] su
          by (blast intro: map_le_trans)
        with "4.IH"(3) [OF refl Inr Unified refl False pb refl pc] "4.prems"(2)
        show ?thesis by auto
      qed
    qed
  qed
next
  case (5 body_conditions s depth e)
  then show ?case by simp
next
  case (6 n s depth e)
  then show ?case by auto
next
  case (7 n first_condition remaining_conditions s depth e)
  from "7.prems" obtain fs e1 where
    p: "prove n first_condition s depth e = Inr (fs, e1)"
    and r: "prove_remaining n remaining_conditions depth fs [] e1 = Inr (sols, e')"
    by (auto split: sum.splits)
  from "7.IH"(2) [OF p refl r, of "map_of s"] "7.IH"(1) [OF p] show ?case by simp
next
  case (8 n remaining_conditions depth solutions e)
  then show ?case by simp
next
  case (9 n remaining_conditions depth solution rest solutions e)
  from "9.prems"(1) obtain rs e1 where
    p: "prove_body n remaining_conditions solution depth e = Inr (rs, e1)"
    and r: "prove_remaining n remaining_conditions depth rest (solutions @ rs) e1 = Inr (sols, e')"
    by (auto split: sum.splits)
  have "m \<subseteq>\<^sub>m map_of solution" using "9.prems"(2) by simp
  with "9.IH"(1) [OF p] have "\<forall>x\<in>set rs. m \<subseteq>\<^sub>m map_of x"
    by (blast intro: map_le_trans)
  with "9.IH"(2) [OF p refl r, of m] "9.prems"(2,3) show ?case by auto
qed

text \<open>
  C9. Every substitution in the list that \<open>prove(goal, s, depth)\<close> returns holds every
  binding of \<open>s\<close>, with the value \<open>s\<close> gives it.
\<close>

theorem prove_solutions_extend_substitution:
  "prove n goal s depth e = Inr (sols, e') \<Longrightarrow> \<forall>s'\<in>set sols. map_of s \<subseteq>\<^sub>m map_of s'"
  by (rule prove_extends_aux(1))

theorem prove_solutions_extend_substitution_witness:
  "\<exists>e'. prove 3 (Term ''p'' [Raw ''X'']) [(''Y'', Term ''b'' [])] 0 (new_engine kb_pa)
          = Inr ([[(''Y'', Term ''b'' []), (''X'', Term ''a'' [])]], e') \<and>
        map_of [(''Y'', Term ''b'' [])] \<subseteq>\<^sub>m map_of [(''Y'', Term ''b'' []), (''X'', Term ''a'' [])]"
proof -
  let ?p = "prove 3 (Term ''p'' [Raw ''X'']) [(''Y'', Term ''b'' [])] 0 (new_engine kb_pa)"
  have "map_sum id fst ?p = Inr [[(''Y'', Term ''b'' []), (''X'', Term ''a'' [])]]"
    by code_simp
  then obtain e1 where
    p1: "?p = Inr ([[(''Y'', Term ''b'' []), (''X'', Term ''a'' [])]], e1)"
    by (cases ?p) auto
  from prove_solutions_extend_substitution [OF p1] p1 show ?thesis by simp
qed

section \<open>Queries\<close>

text \<open>
  The search reads the knowledge base through \<open>get_matching_clauses\<close> only, which reads
  \<open>clauses\<close>: emptying the cache of ground facts changes nothing but the cache.
\<close>

lemma forget_facts_simps [simp]:
  "trace (forget_facts e) = trace e"
  "call_stack (forget_facts e) = call_stack e"
  "log l (forget_facts e) = forget_facts (log l e)"
  "(forget_facts e)\<lparr>call_stack := c\<rparr> = forget_facts (e\<lparr>call_stack := c\<rparr>)"
  "get_matching_clauses (kb (forget_facts e)) goal = get_matching_clauses (kb e) goal"
  by (simp_all add: forget_facts_def log_def get_matching_clauses_def)

lemma prove_forget_facts_aux:
  "prove n goal s depth (forget_facts e) = forgetting (prove n goal s depth e)"
  "prove_clauses n goal s depth cs acc (forget_facts e)
     = forgetting (prove_clauses n goal s depth cs acc e)"
  "prove_body n conds s depth (forget_facts e) = forgetting (prove_body n conds s depth e)"
  "prove_remaining n conds depth firsts acc (forget_facts e)
     = forgetting (prove_remaining n conds depth firsts acc e)"
proof (induction n goal s depth e and n goal s depth cs acc e and n conds s depth e
         and n conds depth firsts acc e rule: prove_induct)
  case (1 goal s depth e)
  then show ?case by simp
next
  case (2 n goal s depth e)
  let ?e1 = "log (indent_of depth @ ''Trying to prove: '' @ str_term (substitute goal s)) e"
  show ?case
  proof (cases "(goal, snapshot s) \<in> set (call_stack ?e1)")
    case True
    then show ?thesis by (simp add: Let_def)
  next
    case False
    note IH = "2.IH" [OF refl refl refl False]
    show ?thesis
    proof (cases "prove_clauses n goal s depth (get_matching_clauses (kb ?e1) goal) []
             (?e1\<lparr>call_stack := call_stack ?e1 @ [(goal, snapshot s)]\<rparr>)")
      case (Inl err)
      with False IH show ?thesis by (simp add: Let_def)
    next
      case pc: (Inr r)
      obtain sols e2 where r: "r = (sols, e2)" by (cases r)
      from False IH pc r show ?thesis by (simp add: Let_def)
    qed
  qed
next
  case (3 n goal s depth solutions e)
  then show ?case by simp
next
  case (4 n goal s depth c cs solutions e)
  let ?rc = "rename_variables c depth"
  let ?e1 = "log (indent_of depth @ ''Unified with: '' @ str_clause ?rc) e"
  show ?case
  proof (cases "unify n goal (head ?rc) s")
    case (Inl err)
    then show ?thesis by (simp add: Let_def)
  next
    case (Inr b)
    show ?thesis
    proof (cases b)
      case (Failed s2)
      from "4.IH"(4) [OF refl Inr Failed] Inr Failed show ?thesis by (simp add: Let_def)
    next
      case (Unified u)
      show ?thesis
      proof (cases "is_fact ?rc")
        case True
        from "4.IH"(1) [OF refl Inr Unified refl True] Inr Unified True
        show ?thesis by (simp add: Let_def)
      next
        case False
        let ?e2 = "log (indent_of depth @ ''Proving body conditions...'') ?e1"
        note IH2 = "4.IH"(2) [OF refl Inr Unified refl False]
        show ?thesis
        proof (cases "prove_body n (body ?rc) u (depth + 1) ?e2")
          case (Inl err)
          with IH2 Inr Unified False show ?thesis by (simp add: Let_def)
        next
          case pb: (Inr r)
          obtain bs e3 where r: "r = (bs, e3)" by (cases r)
          from "4.IH"(3) [OF refl Inr Unified refl False pb r [symmetric]] IH2 pb r Inr Unified False
          show ?thesis by (simp add: Let_def)
        qed
      qed
    qed
  qed
next
  case (5 body_conditions s depth e)
  then show ?case by simp
next
  case (6 n s depth e)
  then show ?case by simp
next
  case (7 n first_condition remaining_conditions s depth e)
  show ?case
  proof (cases "prove n first_condition s depth e")
    case (Inl err)
    with "7.IH"(1) show ?thesis by simp
  next
    case p: (Inr r)
    obtain fs e1 where r: "r = (fs, e1)" by (cases r)
    from "7.IH"(2) [OF p r [symmetric]] "7.IH"(1) p r show ?thesis by simp
  qed
next
  case (8 n remaining_conditions depth solutions e)
  then show ?case by simp
next
  case (9 n remaining_conditions depth solution rest solutions e)
  show ?case
  proof (cases "prove_body n remaining_conditions solution depth e")
    case (Inl err)
    with "9.IH"(1) show ?thesis by simp
  next
    case p: (Inr r)
    obtain rs e1 where r: "r = (rs, e1)" by (cases r)
    from "9.IH"(2) [OF p r [symmetric]] "9.IH"(1) p r show ?thesis by simp
  qed
qed

lemma query_clauses_only:
  assumes "clauses (kb e') = clauses (kb e)"
  shows "returned (query n e' p as) = returned (query n e p as)"
proof -
  let ?r = "\<lambda>e. e\<lparr>trace := [], call_stack := []\<rparr>"
  have eq: "forget_facts (?r e') = forget_facts (?r e)"
    using assms by (simp add: forget_facts_def)
  have q: "returned (query n x p as)
             = map_sum id (\<lambda>r. (fst r, trace (snd r))) (forgetting (prove n (Term p as) [] 0 (?r x)))"
    for x
    by (cases "prove n (Term p as) [] 0 (?r x)") (auto simp: query_def returned_def Let_def)
  show ?thesis
    unfolding q prove_forget_facts_aux(1) [symmetric] eq ..
qed

text \<open>
  \<open>prove\<close> carries out the search of the specification: it returns that search's solutions
  and appends that search's lines to the trace, and leaves everything else in the engine
  as it was.
\<close>

declare dfs_clause.simps [simp del]

lemma replay_simps [simp]:
  "replay acc e (Inl err) = Inl err"
  "replay acc e (Inr (sols, lines)) = Inr (acc @ sols, e\<lparr>trace := trace e @ lines\<rparr>)"
  by (simp_all add: replay_def)

lemma prove_refines_dfs_aux:
  "prove n goal s depth e = replay [] e (dfs_goal n (kb e) (call_stack e) goal s depth)"
  "prove_clauses n goal s depth cs acc e
     = replay acc e (collect (dfs_clause n (kb e) (call_stack e) goal s depth) cs)"
  "prove_body n conds s depth e
     = replay [] e (dfs_conjunction n (kb e) (call_stack e) conds s depth)"
  "prove_remaining n conds depth firsts acc e
     = replay acc e (collect (\<lambda>s'. dfs_conjunction n (kb e) (call_stack e) conds s' depth) firsts)"
proof (induction n goal s depth e and n goal s depth cs acc e and n conds s depth e
         and n conds depth firsts acc e rule: prove_induct)
  case (1 goal s depth e)
  then show ?case by simp
next
  case (2 n goal s depth e)
  let ?e1 = "log (indent_of depth @ ''Trying to prove: '' @ str_term (substitute goal s)) e"
  let ?e2 = "?e1\<lparr>call_stack := call_stack ?e1 @ [(goal, snapshot s)]\<rparr>"
  let ?cs = "filter (\<lambda>c. name (head c) = name goal \<and>
                length (args (head c)) = length (args goal)) (clauses (kb e))"
  let ?r = "collect (dfs_clause n (kb e) (call_stack e @ [(goal, snapshot s)]) goal s depth) ?cs"
  show ?case
  proof (cases "(goal, snapshot s) \<in> set (call_stack ?e1)")
    case True
    then show ?thesis by (simp add: Let_def log_def)
  next
    case False
    have pc: "prove_clauses n goal s depth (get_matching_clauses (kb ?e1) goal) [] ?e2
                = replay [] ?e2 ?r"
      using "2.IH" [OF refl refl refl False] by (simp add: get_matching_clauses_def)
    show ?thesis
    proof (cases ?r)
      case (Inl err)
      with False pc show ?thesis by (simp add: Let_def get_matching_clauses_def)
    next
      case (Inr x)
      obtain sols lines where x: "x = (sols, lines)" by (cases x)
      from False pc Inr x show ?thesis
        by (simp add: Let_def get_matching_clauses_def log_def)
    qed
  qed
next
  case (3 n goal s depth solutions e)
  then show ?case by simp
next
  case (4 n goal s depth c cs solutions e)
  let ?rc = "rename_variables c depth"
  let ?unified = "indent_of depth @ ''Unified with: '' @ str_clause ?rc"
  let ?e1 = "log ?unified e"
  let ?here = "dfs_clause n (kb e) (call_stack e) goal s depth c"
  let ?rest = "collect (dfs_clause n (kb e) (call_stack e) goal s depth) cs"
  show ?case
  proof (cases "unify n goal (head ?rc) s")
    case (Inl err)
    then have "?here = Inl err" by (simp add: dfs_clause.simps Let_def)
    with Inl show ?thesis by (simp add: Let_def)
  next
    case (Inr b)
    show ?thesis
    proof (cases b)
      case (Failed s2)
      with Inr have dc: "?here = Inr ([], [])" by (simp add: dfs_clause.simps Let_def)
      from "4.IH"(4) [OF refl Inr Failed] Inr Failed dc show ?thesis
        by (cases ?rest) (auto simp: Let_def)
    next
      case (Unified u)
      show ?thesis
      proof (cases "is_fact ?rc")
        case True
        with Inr Unified have dc: "?here =
            Inr ([u], [?unified,
                       indent_of depth @ tick @ '' Fact proven: '' @ str_term (substitute goal s)])"
          by (simp add: dfs_clause.simps Let_def is_fact_def)
        from "4.IH"(1) [OF refl Inr Unified refl True] Inr Unified True dc show ?thesis
          by (cases ?rest) (auto simp: Let_def log_def)
      next
        case False
        let ?e2 = "log (indent_of depth @ ''Proving body conditions...'') ?e1"
        let ?b = "dfs_conjunction n (kb e) (call_stack e) (body ?rc) u (depth + 1)"
        have pb: "prove_body n (body ?rc) u (depth + 1) ?e2 = replay [] ?e2 ?b"
          using "4.IH"(2) [OF refl Inr Unified refl False] by simp
        show ?thesis
        proof (cases ?b)
          case (Inl err)
          with Inr Unified False have dc: "?here = Inl err"
            by (simp add: dfs_clause.simps Let_def is_fact_def)
          from pb Inl Inr Unified False dc show ?thesis by (simp add: Let_def)
        next
          case b: (Inr x)
          obtain bs ls where x: "x = (bs, ls)" by (cases x)
          let ?e3 = "?e2\<lparr>trace := trace ?e2 @ ls\<rparr>"
          from b x Inr Unified False have dc: "?here =
              Inr (bs, [?unified, indent_of depth @ ''Proving body conditions...''] @ ls)"
            by (simp add: dfs_clause.simps Let_def is_fact_def)
          have pb': "prove_body n (body ?rc) u (depth + 1) ?e2 = Inr (bs, ?e3)"
            using pb b x by simp
          from "4.IH"(3) [OF refl Inr Unified refl False pb' refl]
          have "prove_clauses n goal s depth cs (solutions @ bs) ?e3
                  = replay (solutions @ bs) ?e3 ?rest"
            by simp
          with pb' Inr Unified False dc show ?thesis
            by (cases ?rest) (auto simp: Let_def log_def)
        qed
      qed
    qed
  qed
next
  case (5 body_conditions s depth e)
  then show ?case by simp
next
  case (6 n s depth e)
  then show ?case by simp
next
  case (7 n first_condition remaining_conditions s depth e)
  let ?g = "dfs_goal n (kb e) (call_stack e) first_condition s depth"
  show ?case
  proof (cases ?g)
    case (Inl err)
    with "7.IH"(1) show ?thesis by simp
  next
    case g: (Inr x)
    obtain fs ls where x: "x = (fs, ls)" by (cases x)
    let ?e1 = "e\<lparr>trace := trace e @ ls\<rparr>"
    let ?rest = "collect (\<lambda>s'. dfs_conjunction n (kb e) (call_stack e)
                   remaining_conditions s' depth) fs"
    have p: "prove n first_condition s depth e = Inr (fs, ?e1)"
      using "7.IH"(1) g x by simp
    from "7.IH"(2) [OF p refl]
    have "prove_remaining n remaining_conditions depth fs [] ?e1 = replay [] ?e1 ?rest"
      by simp
    with p g x show ?thesis by (cases ?rest) auto
  qed
next
  case (8 n remaining_conditions depth solutions e)
  then show ?case by simp
next
  case (9 n remaining_conditions depth solution rest solutions e)
  let ?b = "dfs_conjunction n (kb e) (call_stack e) remaining_conditions solution depth"
  let ?rest = "collect (\<lambda>s'. dfs_conjunction n (kb e) (call_stack e)
                 remaining_conditions s' depth) rest"
  show ?case
  proof (cases ?b)
    case (Inl err)
    with "9.IH"(1) show ?thesis by simp
  next
    case b: (Inr x)
    obtain rs ls where x: "x = (rs, ls)" by (cases x)
    let ?e1 = "e\<lparr>trace := trace e @ ls\<rparr>"
    have p: "prove_body n remaining_conditions solution depth e = Inr (rs, ?e1)"
      using "9.IH"(1) b x by simp
    from "9.IH"(2) [OF p refl]
    have "prove_remaining n remaining_conditions depth rest (solutions @ rs) ?e1
            = replay (solutions @ rs) ?e1 ?rest"
      by simp
    with p b x show ?thesis by (cases ?rest) auto
  qed
qed

text \<open>
  C7. \<open>query\<close> starts from an empty trace and an empty call stack whatever the engine
  held before, so its result depends on the knowledge base and the query alone: from any
  two engine states over the same knowledge base (a fresh engine, the state left by
  earlier queries, a state left by a query that hit the recursion limit), the same query
  returns the same solutions and the same trace, character for character, or ends in the
  same error. What it returns is the result of the depth-first search \<open>dfs_goal\<close>:
  candidates in clause-insertion order, each searched to the end before the next,
  conditions from left to right. A query that returns leaves the knowledge base as it
  was, so all this applies to the next query again.
\<close>

theorem query_is_depth_first_search:
  assumes "kb e' = kb e"
  shows "returned (query n e' p as) = returned (query n e p as) \<and>
         returned (query n e p as) = dfs_goal n (kb e) [] (Term p as) [] 0 \<and>
         (case query n e p as of Inl err \<Rightarrow> True | Inr (r, e1) \<Rightarrow> kb e1 = kb e)"
proof -
  have d: "returned (query n x p as) = dfs_goal n (kb x) [] (Term p as) [] 0" for x
    by (cases "dfs_goal n (kb x) [] (Term p as) [] 0")
      (auto simp: query_def returned_def Let_def prove_refines_dfs_aux(1))
  have "case query n e p as of Inl err \<Rightarrow> True | Inr (r, e1) \<Rightarrow> kb e1 = kb e"
    by (cases "dfs_goal n (kb e) [] (Term p as) [] 0")
      (auto simp: query_def Let_def prove_refines_dfs_aux(1))
  with d [of e] d [of e'] assms show ?thesis by simp
qed

theorem query_is_depth_first_search_witness:
  "kb ((new_engine kb_p_a_b)\<lparr>trace := [''stale''], call_stack := [(Term ''p'' [Raw ''X''], [])]\<rparr>)
     = kb (new_engine kb_p_a_b) \<and>
   returned (query 3
       ((new_engine kb_p_a_b)\<lparr>trace := [''stale''], call_stack := [(Term ''p'' [Raw ''X''], [])]\<rparr>)
       ''p'' [Raw ''X''])
     = returned (query 3 (new_engine kb_p_a_b) ''p'' [Raw ''X'']) \<and>
   returned (query 3 (new_engine kb_p_a_b) ''p'' [Raw ''X''])
     = Inr ([[(''X'', Term ''a'' [])], [(''X'', Term ''b'' [])]],
            [''Trying to prove: p(X)'',
             ''Unified with: p(a)'', tick @ '' Fact proven: p(X)'',
             ''Unified with: p(b)'', tick @ '' Fact proven: p(X)'']) \<and>
   dfs_goal 3 (kb (new_engine kb_p_a_b)) [] (Term ''p'' [Raw ''X'']) [] 0
     = Inr ([[(''X'', Term ''a'' [])], [(''X'', Term ''b'' [])]],
            [''Trying to prove: p(X)'',
             ''Unified with: p(a)'', tick @ '' Fact proven: p(X)'',
             ''Unified with: p(b)'', tick @ '' Fact proven: p(X)''])"
proof -
  let ?e' = "(new_engine kb_p_a_b)\<lparr>trace := [''stale''],
               call_stack := [(Term ''p'' [Raw ''X''], [])]\<rparr>"
  have h: "kb ?e' = kb (new_engine kb_p_a_b)" by (simp add: new_engine_def)
  have v: "returned (query 3 (new_engine kb_p_a_b) ''p'' [Raw ''X''])
     = Inr ([[(''X'', Term ''a'' [])], [(''X'', Term ''b'' [])]],
            [''Trying to prove: p(X)'',
             ''Unified with: p(a)'', tick @ '' Fact proven: p(X)'',
             ''Unified with: p(b)'', tick @ '' Fact proven: p(X)''])"
    by code_simp
  from query_is_depth_first_search [OF h, of 3 "''p''" "[Raw ''X'']"] h v show ?thesis by simp
qed

text \<open>
  The trace follows the search: the goal, then each clause in insertion order, and under a
  rule its conditions from left to right, one indentation level deeper.
\<close>

lemma grandparent_query_trace:
  "returned (query 6 (new_engine kb_family) ''grandparent'' [Raw ''john'', Raw ''alice''])
     = Inr ([[(''X_0'', Term ''john'' []), (''Z_0'', Term ''alice'' []),
              (''Y_0'', Term ''mary'' [])]],
            [''Trying to prove: grandparent(john, alice)'',
             ''Unified with: grandparent(X_0, Z_0) :- parent(X_0, Y_0), parent(Y_0, Z_0)'',
             ''Proving body conditions...'',
             ''  Trying to prove: parent(john, Y_0)'',
             ''  Unified with: parent(john, mary)'',
             ''  '' @ tick @ '' Fact proven: parent(john, Y_0)'',
             ''  Trying to prove: parent(mary, alice)'',
             ''  Unified with: parent(mary, alice)'',
             ''  '' @ tick @ '' Fact proven: parent(mary, alice)''])"
  by code_simp

text \<open>
  C10. The result of a query does not depend on the cache of ground facts: replacing the
  knowledge base by one with the same clause sequence (and any cache) leaves the returned
  solutions and trace the same.
\<close>

theorem query_ignores_fact_cache:
  assumes "clauses k' = clauses (kb e)"
  shows "returned (query n (e\<lparr>kb := k'\<rparr>) p as) = returned (query n e p as)"
  by (rule query_clauses_only) (simp add: assms)

theorem query_ignores_fact_cache_witness:
  "clauses (kb_pa\<lparr>facts := {}\<rparr>) = clauses (kb (new_engine kb_pa)) \<and>
   facts (kb_pa\<lparr>facts := {}\<rparr>) \<noteq> facts (kb (new_engine kb_pa)) \<and>
   returned (query 3 ((new_engine kb_pa)\<lparr>kb := kb_pa\<lparr>facts := {}\<rparr>\<rparr>) ''p'' [Raw ''a''])
     = returned (query 3 (new_engine kb_pa) ''p'' [Raw ''a''])"
proof -
  have h: "clauses (kb_pa\<lparr>facts := {}\<rparr>) = clauses (kb (new_engine kb_pa))"
    by (simp add: new_engine_def)
  have d: "facts (kb_pa\<lparr>facts := {}\<rparr>) \<noteq> facts (kb (new_engine kb_pa))"
    by (simp add: new_engine_def kb_pa_def add_fact_def empty_kb_def Let_def
        isupper_def is_upper_char_def is_lower_char_def)
  from query_ignores_fact_cache [OF h, of 3 "''p''" "[Raw ''a'']"] h d show ?thesis by simp
qed

section \<open>Ground facts\<close>

lemma substitute_args_ground:
  "list_all is_raw_constant as \<Longrightarrow> substitute_args as s = as"
proof (induction as)
  case Nil
  then show ?case by simp
next
  case (Cons a as)
  then show ?case by (cases a) auto
qed

lemma rename_args_ground:
  "list_all is_raw_constant as \<Longrightarrow> rename_args d as = as"
proof (induction as)
  case Nil
  then show ?case by simp
next
  case (Cons a as)
  then show ?case by (cases a) auto
qed

lemma unify_args_ground:
  assumes "list_all is_raw_constant xs" and "list_all is_raw_constant ys"
    and "length xs = length ys"
  shows "unify_args (Suc k) (zip xs ys) [] = Inr (if xs = ys then Unified [] else Failed [])"
  using assms(3,1,2)
proof (induction xs ys rule: list_induct2)
  case Nil
  then show ?case by simp
next
  case (Cons x xs y ys)
  from Cons.prems obtain a b where ab: "x = Raw a" "y = Raw b" "\<not> isupper a" "\<not> isupper b"
    by (cases x; cases y) auto
  have "unify (Suc k) (Term a []) (Term b []) [] = Inr (if a = b then Unified [] else Failed [])"
    using ab by (simp add: Let_def)
  with Cons show ?case by (auto simp add: ab simp del: unify.simps)
qed

lemma unify_ground:
  assumes "\<not> isupper p" and "list_all is_raw_constant as" and "list_all is_raw_constant bs"
    and "length as = length bs"
  shows "unify (Suc (Suc k)) (Term p as) (Term p bs) []
           = Inr (if as = bs then Unified [] else Failed [])"
  using assms unify_args_ground [OF assms(2,3,4), of k]
  by (simp add: substitute_nonvar substitute_args_ground del: substitute.simps unify_args.simps)

lemma prove_clauses_ground:
  assumes "\<not> isupper p" and "list_all is_raw_constant as"
    and "\<forall>c\<in>set cs. is_ground_fact c \<and> name (head c) = p \<and> length (args (head c)) = length as"
  shows "\<exists>e'. prove_clauses (Suc (Suc k)) (Term p as) [] d cs acc e
           = Inr (acc @ replicate (count_list (map head cs) (Term p as)) [], e')"
  using assms(3)
proof (induction cs arbitrary: acc e)
  case Nil
  then show ?case by simp
next
  case (Cons c cs)
  obtain q bs where hd: "head c = Term q bs" by (cases "head c")
  with Cons.prems have q: "q = p" and len: "length as = length bs"
    and bs: "list_all is_raw_constant bs" and fact: "is_fact c"
    by (simp_all add: is_ground_fact_def)
  have ren: "rename_variables c d = c"
    using hd q bs fact assms(1)
    by (simp add: rename_variables_def rename_args_ground is_fact_def)
  note u = unify_ground [OF assms(1,2) bs len, of k]
  show ?case
  proof (cases "as = bs")
    case True
    let ?e1 = "log (indent_of d @ tick @ '' Fact proven: '' @ str_term (substitute (Term p as) []))
                 (log (indent_of d @ ''Unified with: '' @ str_clause c) e)"
    from Cons.IH [of "acc @ [[]]" ?e1] Cons.prems obtain e' where
      "prove_clauses (Suc (Suc k)) (Term p as) [] d cs (acc @ [[]]) ?e1
         = Inr ((acc @ [[]]) @ replicate (count_list (map head cs) (Term p as)) [], e')"
      by auto
    with True u fact hd q show ?thesis
      by (simp add: ren Let_def del: prove_clauses.simps(1) unify.simps substitute.simps)
  next
    case False
    from Cons.IH [of acc e] Cons.prems obtain e' where
      "prove_clauses (Suc (Suc k)) (Term p as) [] d cs acc e
         = Inr (acc @ replicate (count_list (map head cs) (Term p as)) [], e')"
      by auto
    with False u hd q show ?thesis
      by (auto simp add: ren Let_def simp del: unify.simps substitute.simps)
  qed
qed

lemma count_filter_heads:
  "count_list (map head (filter (\<lambda>c. name (head c) = name goal \<and>
       length (args (head c)) = length (args goal)) cs)) goal = count_list (map head cs) goal"
  by (induction cs) auto

lemma count_matching:
  "count_list (map head (get_matching_clauses k goal)) goal = count_list (map head (clauses k)) goal"
  by (simp add: get_matching_clauses_def count_filter_heads)

text \<open>
  C6 (amended). Let \<open>p(a1..an)\<close> be a ground fact: \<open>p\<close> is not a variable name and the
  arguments are raw strings that are not variable names. In a knowledge base in which
  every clause for \<open>p\<close> with \<open>n\<close> arguments is such a ground fact, \<open>query(p, a1..an)\<close>
  returns (from recursion depth 3 on) one empty substitution for each time the fact was
  added, and nothing else: exactly one solution, the empty substitution, when it was added
  once.
\<close>

theorem query_ground_fact:
  assumes "\<not> isupper p" and "list_all is_raw_constant as"
    and "list_all is_ground_fact (get_matching_clauses (kb e) (Term p as))"
  shows "solutions_of (query (n + 3) e p as)
           = Inr (replicate (count_list (map head (clauses (kb e))) (Term p as)) [])"
proof -
  let ?goal = "Term p as"
  let ?cs = "get_matching_clauses (kb e) ?goal"
  let ?e1 = "log (indent_of 0 @ ''Trying to prove: '' @ str_term (substitute ?goal []))
               (e\<lparr>trace := [], call_stack := []\<rparr>)"
  let ?e2 = "?e1\<lparr>call_stack := call_stack ?e1 @ [(?goal, snapshot [])]\<rparr>"
  let ?sols = "replicate (count_list (map head (clauses (kb e))) ?goal) ([] :: subst)"
  have cs: "\<forall>c\<in>set ?cs. is_ground_fact c \<and> name (head c) = p \<and>
              length (args (head c)) = length as"
    using assms(3) by (auto simp: list_all_iff get_matching_clauses_def)
  from prove_clauses_ground [OF assms(1,2) cs, of n 0 "[]" ?e2] obtain e3 where
    pc: "prove_clauses (Suc (Suc n)) ?goal [] 0 ?cs [] ?e2 = Inr (?sols, e3)"
    by (auto simp: count_matching)
  from prove_frame_aux(2) [OF pc] have st: "call_stack e3 \<noteq> []" by simp
  have m: "get_matching_clauses (kb ?e1) ?goal = ?cs" by simp
  have "\<exists>e4. prove (Suc (Suc (Suc n))) ?goal [] 0 (e\<lparr>trace := [], call_stack := []\<rparr>)
          = Inr (?sols, e4)"
    using pc st
    by (simp add: Let_def m del: prove_clauses.simps substitute.simps replicate.simps)
  then show ?thesis
    by (auto simp add: solutions_of_def query_def Let_def eval_nat_numeral
        simp del: prove.simps)
qed

theorem query_ground_fact_witness:
  "\<not> isupper ''p'' \<and> list_all is_raw_constant [Raw ''a'', Raw ''b''] \<and>
   list_all is_ground_fact
     (get_matching_clauses (kb (new_engine kb_pab)) (Term ''p'' [Raw ''a'', Raw ''b''])) \<and>
   count_list (map head (clauses (kb (new_engine kb_pab)))) (Term ''p'' [Raw ''a'', Raw ''b'']) = 1 \<and>
   solutions_of (query 3 (new_engine kb_pab) ''p'' [Raw ''a'', Raw ''b'']) = Inr [[]]"
proof -
  have h1: "\<not> isupper ''p''" by code_simp
  have h2: "list_all is_raw_constant [Raw ''a'', Raw ''b'']" by code_simp
  have h3: "list_all is_ground_fact
     (get_matching_clauses (kb (new_engine kb_pab)) (Term ''p'' [Raw ''a'', Raw ''b'']))"
    by code_simp
  have c: "count_list (map head (clauses (kb (new_engine kb_pab))))
             (Term ''p'' [Raw ''a'', Raw ''b'']) = 1"
    by code_simp
  from query_ground_fact [OF h1 h2 h3, of 0] h1 h2 h3 c show ?thesis by simp
qed

text \<open>
  C6 as stated fails. The fact \<open>P(a)\<close> has no variable argument and is cached as ground,
  yet its predicate name is a variable name: the one solution of \<open>query(P, a)\<close> binds
  \<open>P\<close>. And a fact added twice is found twice.
\<close>

theorem query_ground_fact_counterexample:
  "Term ''P'' [Raw ''a''] \<in> facts kb_PA \<and>
   solutions_of (query 3 (new_engine kb_PA) ''P'' [Raw ''a''])
     = Inr [[(''P'', Term ''P_0'' [])]] \<and>
   solutions_of (query 3 (new_engine kb_pa_twice) ''p'' [Raw ''a'']) = Inr [[], []]"
proof -
  have "Term ''P'' [Raw ''a''] \<in> facts kb_PA"
    by (simp add: kb_PA_def add_fact_def empty_kb_def Let_def
        isupper_def is_upper_char_def is_lower_char_def)
  moreover have "solutions_of (query 3 (new_engine kb_PA) ''P'' [Raw ''a''])
     = Inr [[(''P'', Term ''P_0'' [])]]"
    by code_simp
  moreover have "solutions_of (query 3 (new_engine kb_pa_twice) ''p'' [Raw ''a'']) = Inr [[], []]"
    by code_simp
  ultimately show ?thesis by simp
qed

section \<open>Direct recursion\<close>

declare str_nat.simps [simp del]

lemma digit_char_inj: "a < 10 \<Longrightarrow> b < 10 \<Longrightarrow> digit_char a = digit_char b \<Longrightarrow> a = b"
  unfolding digit_char_def
  by (subst (asm) nth_eq_iff_index_eq) simp_all

lemma str_nat_not_Nil: "str_nat n \<noteq> []"
  by (subst str_nat.simps) simp

lemma str_nat_inj: "str_nat m = str_nat n \<Longrightarrow> m = n"
proof (induction m arbitrary: n rule: str_nat.induct)
  case (1 m)
  show ?case
  proof (cases "m < 10")
    case m: True
    show ?thesis
    proof (cases "n < 10")
      case True
      with m "1.prems" show ?thesis
        by (simp add: str_nat.simps [of m] str_nat.simps [of n] digit_char_inj)
    next
      case False
      with m "1.prems" str_nat_not_Nil [of "n div 10"] show ?thesis
        by (simp add: str_nat.simps [of m] str_nat.simps [of n])
    qed
  next
    case m: False
    show ?thesis
    proof (cases "n < 10")
      case True
      with m "1.prems" str_nat_not_Nil [of "m div 10"] show ?thesis
        by (simp add: str_nat.simps [of m] str_nat.simps [of n])
    next
      case False
      with m "1.prems" have
        "str_nat (m div 10) = str_nat (n div 10)" and "digit_char (m mod 10) = digit_char (n mod 10)"
        by (simp_all add: str_nat.simps [of m] str_nat.simps [of n])
      with "1.IH" [OF m] have "m div 10 = n div 10" and "m mod 10 = n mod 10"
        by (simp_all add: digit_char_inj)
      then show ?thesis by (metis div_mult_mod_eq)
    qed
  qed
qed

lemma str_nat_digits: "set (str_nat n) \<subseteq> set ''0123456789''"
proof (induction n rule: str_nat.induct)
  case (1 n)
  have d: "digit_char k \<in> set ''0123456789''" if "k < 10" for k
    unfolding digit_char_def using that by (intro nth_mem) simp
  show ?case
  proof (cases "n < 10")
    case True
    then show ?thesis using d [of n] by (subst str_nat.simps) simp
  next
    case False
    then show ?thesis using "1.IH" d [of "n mod 10"] by (subst str_nat.simps) simp
  qed
qed

lemma fresh_name_inj: "fresh_name x m = fresh_name x n \<Longrightarrow> m = n"
  by (simp add: fresh_name_def str_nat_inj)

lemma isupper_fresh_X: "isupper (fresh_name ''X'' n)"
proof -
  have "\<not> is_lower_char c" if "c \<in> set (str_nat n)" for c
    using that str_nat_digits [of n] by (auto simp: is_lower_char_def)
  then show ?thesis
    by (auto simp: isupper_def isupper_scan_iff fresh_name_def list_ex_iff
        is_upper_char_def is_lower_char_def)
qed

lemma kb_loop_clauses: "clauses kb_loop = [loop_rule]"
  by (simp add: kb_loop_def add_rule_def empty_kb_def)

lemma not_upper_loop: "\<not> isupper ''loop''" "\<not> isupper ''a''" "isupper ''X''"
  by (simp_all add: isupper_def is_upper_char_def is_lower_char_def)

lemma rename_loop_rule:
  "rename_variables loop_rule d =
     \<lparr>head = Term ''loop'' [Raw (fresh_name ''X'' d)],
      body = [Term ''loop'' [Raw (fresh_name ''X'' d)]]\<rparr>"
  by (simp add: rename_variables_def not_upper_loop)

lemma length_dict_set: "map_of s k = None \<Longrightarrow> length (dict_set k v s) = Suc (length s)"
  by (induction s) (auto split: if_splits)

lemma unify_loop_head:
  assumes "map_of s (fresh_name ''X'' d) = None"
    and "arg_term (substitute_arg g s) = Term ''a'' []"
  shows "unify n (Term ''loop'' [g]) (Term ''loop'' [Raw (fresh_name ''X'' d)]) s =
           (if n < 2 then Inl RecursionError
            else Inr (Unified (dict_set (fresh_name ''X'' d) (Term ''a'' []) s)))"
proof -
  let ?x = "fresh_name ''X'' d"
  have ne: "substitute_arg g s \<noteq> Raw ?x"
    using assms(2) by (auto simp: fresh_name_def)
  have xa: "''a'' \<noteq> ?x" by (simp add: fresh_name_def)
  have inner: "unify (Suc k) (arg_term (substitute_arg g s)) (Term ?x []) s
                 = Inr (Unified (dict_set ?x (Term ''a'' []) s))" for k
    using assms xa by (simp add: not_upper_loop isupper_fresh_X)
  show ?thesis
  proof (cases n)
    case 0
    then show ?thesis by simp
  next
    case (Suc m)
    show ?thesis
    proof (cases m)
      case 0
      with Suc assms ne show ?thesis
        by (simp add: not_upper_loop isupper_fresh_X)
    next
      case (Suc k)
      with \<open>n = Suc m\<close> assms ne inner [of k] show ?thesis
        by (simp add: not_upper_loop isupper_fresh_X)
    qed
  qed
qed

lemma loop_diverges:
  assumes "kb e = kb_loop"
    and "\<forall>k\<ge>d. map_of s (fresh_name ''X'' k) = None"
    and "arg_term (substitute_arg g s) = Term ''a'' []"
    and "\<forall>en\<in>set (call_stack e). length (snd en) < length s"
  shows "prove n (Term ''loop'' [g]) s d e = Inl RecursionError"
  using assms
proof (induction n arbitrary: g s d e rule: less_induct)
  case (less n)
  let ?x = "fresh_name ''X'' d"
  let ?goal = "Term ''loop'' [g]"
  let ?s' = "dict_set ?x (Term ''a'' []) s"
  show ?case
  proof (cases n)
    case 0
    then show ?thesis by simp
  next
    case (Suc m)
    let ?e1 = "log (indent_of d @ ''Trying to prove: '' @ str_term (substitute ?goal s)) e"
    let ?e2 = "?e1\<lparr>call_stack := call_stack ?e1 @ [(?goal, snapshot s)]\<rparr>"
    have nohit: "(?goal, snapshot s) \<notin> set (call_stack ?e1)"
      using less.prems(4) by (auto simp: snapshot_def)
    have matching: "get_matching_clauses (kb ?e1) ?goal = [loop_rule]"
      by (simp add: get_matching_clauses_def less.prems(1) kb_loop_clauses)
    have unbound: "map_of s ?x = None" using less.prems(2) by simp
    note u = unify_loop_head [OF unbound less.prems(3), of m]
    have pc: "prove_clauses m ?goal s d [loop_rule] [] ?e2 = Inl RecursionError"
    proof (cases "m < 2")
      case True
      with u show ?thesis by (simp add: rename_loop_rule)
    next
      case False
      then obtain m' where m: "m = Suc m'" by (cases m) auto
      let ?e3 = "log (indent_of d @ ''Proving body conditions...'')
                   (log (indent_of d @ ''Unified with: '' @
                      str_clause (rename_variables loop_rule d)) ?e2)"
      have "prove m' (Term ''loop'' [Raw ?x]) ?s' (d + 1) ?e3 = Inl RecursionError"
      proof (rule less.IH)
        show "m' < n" using Suc m by simp
        show "kb ?e3 = kb_loop" using less.prems(1) by simp
        show "\<forall>k\<ge>d + 1. map_of ?s' (fresh_name ''X'' k) = None"
          using less.prems(2) by (auto simp: map_of_dict_set dest: fresh_name_inj)
        show "arg_term (substitute_arg (Raw ?x) ?s') = Term ''a'' []"
          by (simp add: isupper_fresh_X map_of_dict_set)
        show "\<forall>en\<in>set (call_stack ?e3). length (snd en) < length ?s'"
          using less.prems(4) by (auto simp: length_dict_set [OF unbound] snapshot_def)
      qed
      then have "prove_body m [Term ''loop'' [Raw ?x]] ?s' (d + 1) ?e3 = Inl RecursionError"
        by (simp add: m)
      with False u show ?thesis
        by (simp add: rename_loop_rule is_fact_def Let_def)
    qed
    from nohit matching pc Suc show ?thesis by (simp add: Let_def)
  qed
qed

text \<open>
  C1 (the code at the claim's input). With the single rule \<open>loop(X) :- loop(X)\<close>,
  \<open>query(loop, a)\<close> does not return, whatever the recursion limit: it ends in
  \<open>RecursionError\<close>. At depth \<open>d\<close> the goal is \<open>loop(X_(d-1))\<close> under a substitution with
  \<open>d\<close> bindings, so no pair on the call stack ever recurs and the cycle guard never fires.
\<close>

theorem loop_query_never_returns:
  "query n (new_engine kb_loop) ''loop'' [Raw ''a''] = Inl RecursionError"
proof -
  have "prove n (Term ''loop'' [Raw ''a'']) [] 0 ((new_engine kb_loop)\<lparr>trace := [], call_stack := []\<rparr>)
          = Inl RecursionError"
    by (rule loop_diverges) (simp_all add: new_engine_def not_upper_loop)
  then show ?thesis by (simp add: query_def Let_def)
qed

text \<open>
  The guard does fire where goal and substitution recur unchanged: for the rule
  \<open>loop :- loop\<close>, without variables, the query returns no solution.
\<close>

lemma propositional_loop_guard_fires:
  "returned (query 4 (new_engine kb_loop0) ''loop'' [])
     = Inr ([], [''Trying to prove: loop'', ''Unified with: loop :- loop'',
                 ''Proving body conditions...'', ''  Trying to prove: loop'',
                 ''  '' @ cross @ '' Infinite recursion detected'',
                 cross @ '' Cannot prove: loop''])"
  by code_simp

end
